theory Spec2Isabelle
  imports Complex_Main "HOL-Library.Log_Nat"
begin

section \<open>Python numbers\<close>

text \<open>
  The service computes with Python floats (IEEE binary64) and ints. A finite float is a
  rational number, so the model carries a float as its exact value, of type \<open>rat\<close>, and
  writes out the two roundings the program relies on: rounding a float to a whole number
  or to a number of decimals (\<open>round\<close>), and rounding a rational to the nearest float.
\<close>

text \<open>Round to the nearest integer, a tie going to the even neighbour: what Python's
  \<open>round\<close> does on the exact value of a float.\<close>

definition round_half_even :: "rat \<Rightarrow> int" where
  "round_half_even x =
     (let f = \<lfloor>x\<rfloor>; d = x - of_int f
      in if d < 1 / 2 then f
         else if 1 / 2 < d then f + 1
         else if even f then f else f + 1)"

text \<open>The integer part of the binary logarithm of a positive rational, from the bit
  lengths of its numerator and denominator.\<close>

definition ilog2 :: "rat \<Rightarrow> int" where
  "ilog2 q =
     (let (a, b) = quotient_of q; d = bitlen a - bitlen b
      in if 2 powi d \<le> q then d else d - 1)"

text \<open>
  The binary64 value nearest to a rational (ties to even): 53 significant bits, the
  exponent of the last bit not below \<open>-1074\<close> (subnormal numbers). Magnitudes from
  \<open>2 ^ 1024\<close> on, where a conversion overflows, are out of reach: every value the
  program converts is the rounding of a draw, and a draw is a float.
\<close>

definition to_double :: "rat \<Rightarrow> rat" where
  "to_double q =
     (if q = 0 then 0
      else let e = max (ilog2 \<bar>q\<bar> - 52) (- 1074)
           in sgn q * of_int (round_half_even (\<bar>q\<bar> / 2 powi e)) * 2 powi e)"

text \<open>\<open>round(value)\<close>: a float rounded to a Python int.\<close>

definition py_round :: "rat \<Rightarrow> int" where
  "py_round x = round_half_even x"

text \<open>\<open>round(value, ndigits)\<close>: the float nearest to the exact value rounded
  (half to even) to \<open>ndigits\<close> decimals.\<close>

definition py_round_ndigits :: "rat \<Rightarrow> nat \<Rightarrow> rat" where
  "py_round_ndigits x ndigits =
     to_double (of_int (round_half_even (x * 10 ^ ndigits)) / 10 ^ ndigits)"

text \<open>\<open>rand\<close> returns an int on one branch and a float on the other.\<close>

datatype py_number = PyInt int | PyFloat rat

text \<open>A field declared \<open>float\<close> in a pydantic model takes a float as it is and converts
  an int to the nearest float.\<close>

fun as_float :: "py_number \<Rightarrow> rat" where
  "as_float (PyInt k) = to_double (of_int k)"
| "as_float (PyFloat x) = x"


section \<open>The random source\<close>

text \<open>
  \<open>random.uniform\<close> reads and advances the process-wide generator of Python's
  \<open>random\<close> module, which is library code. The model makes that state explicit as the
  sequence of results the coming calls of \<open>random.uniform\<close> will return: a call takes the
  first element, whatever its arguments, and leaves the rest. A statement proved for every
  sequence therefore holds for every generator; that a result lies between the two
  arguments of its call is a hypothesis (\<open>draws_in_range\<close> below) where a claim needs it.
\<close>

type_synonym random_source = "nat \<Rightarrow> rat"

definition drop_draws :: "nat \<Rightarrow> random_source \<Rightarrow> random_source" where
  "drop_draws k rs = (\<lambda>i. rs (k + i))"

definition uniform :: "rat \<Rightarrow> rat \<Rightarrow> random_source \<Rightarrow> rat \<times> random_source" where
  "uniform low high rs = (rs 0, drop_draws 1 rs)"


section \<open>Ranges, models and the sampler\<close>

text \<open>Both source files, \<open>influent_API.py\<close> and \<open>influent_api.py\<close>, hold the same
  range table, the same two models and the same \<open>generate_influent\<close>, \<open>root\<close> and
  \<open>get_single_influent\<close>; they are modelled once.\<close>

datatype error = KeyError string

text \<open>The outcome of a computation on the random source: the value and the source as it
  was left, or the exception raised and the source as it was left.\<close>

type_synonym 'a outcome = "(error \<times> random_source) + ('a \<times> random_source)"

definition and_then :: "'a outcome \<Rightarrow> ('a \<Rightarrow> random_source \<Rightarrow> 'b outcome) \<Rightarrow> 'b outcome" where
  "and_then r f = (case r of Inl e \<Rightarrow> Inl e | Inr (x, rs) \<Rightarrow> f x rs)"

definition INFLUENT_RANGES :: "(string \<times> (rat \<times> rat)) list" where
  "INFLUENT_RANGES =
     [(''flow_m3_h'', (20, 500)),
      (''temp_C'', (10, 35)),
      (''pH'', (6, 17 / 2)),
      (''TSS_in_mgL'', (80, 800)),
      (''BOD_in_mgL'', (100, 500)),
      (''COD_in_mgL'', (200, 1000)),
      (''oil_grease_in_mgL'', (1, 50)),
      (''turbidity_in_NTU'', (20, 500))]"

text \<open>\<open>INFLUENT_RANGES[key]\<close>: a missing key raises \<open>KeyError\<close>.\<close>

definition range_of :: "string \<Rightarrow> random_source \<Rightarrow> (rat \<times> rat) outcome" where
  "range_of key rs =
     (case map_of INFLUENT_RANGES key of
        None \<Rightarrow> Inl (KeyError key, rs)
      | Some r \<Rightarrow> Inr (r, rs))"

record influent =
  flow_m3_h :: rat
  temp_C :: rat
  pH :: rat
  TSS_in_mgL :: rat
  BOD_in_mgL :: rat
  COD_in_mgL :: rat
  oil_grease_in_mgL :: rat
  turbidity_in_NTU :: rat

record influent_batch =
  count :: int
  influents :: "influent list"

text \<open>The constructor call \<open>Influent(flow_m3_h=..., ...)\<close>: every field is declared
  \<open>float\<close>.\<close>

definition Influent ::
  "py_number \<Rightarrow> py_number \<Rightarrow> py_number \<Rightarrow> py_number \<Rightarrow>
   py_number \<Rightarrow> py_number \<Rightarrow> py_number \<Rightarrow> py_number \<Rightarrow> influent" where
  "Influent v1 v2 v3 v4 v5 v6 v7 v8 =
     \<lparr>flow_m3_h = as_float v1, temp_C = as_float v2, pH = as_float v3,
      TSS_in_mgL = as_float v4, BOD_in_mgL = as_float v5, COD_in_mgL = as_float v6,
      oil_grease_in_mgL = as_float v7, turbidity_in_NTU = as_float v8\<rparr>"

text \<open>The local function \<open>rand(low, high, decimals=1)\<close> of \<open>generate_influent\<close>.\<close>

definition rand ::
  "rat \<Rightarrow> rat \<Rightarrow> nat \<Rightarrow> random_source \<Rightarrow> py_number \<times> random_source" where
  "rand low high decimals rs =
     (let (v, rs') = uniform low high rs
      in (if decimals = 0 then PyInt (py_round v)
          else PyFloat (py_round_ndigits v decimals), rs'))"

text \<open>One argument of the constructor call, \<open>rand(*INFLUENT_RANGES[key], decimals=d)\<close>:
  the lookup, then the draw.\<close>

definition rand_field :: "string \<Rightarrow> nat \<Rightarrow> random_source \<Rightarrow> py_number outcome" where
  "rand_field key decimals rs =
     and_then (range_of key rs) (\<lambda>(low, high) rs. Inr (rand low high decimals rs))"

text \<open>\<open>generate_influent\<close>: the eight arguments are evaluated in the order they are
  written, each advancing the random source; only the first passes \<open>decimals=0\<close>.\<close>

definition generate_influent :: "random_source \<Rightarrow> influent outcome" where
  "generate_influent rs0 =
     and_then (rand_field ''flow_m3_h'' 0 rs0) (\<lambda>v1 rs1.
     and_then (rand_field ''temp_C'' 1 rs1) (\<lambda>v2 rs2.
     and_then (rand_field ''pH'' 1 rs2) (\<lambda>v3 rs3.
     and_then (rand_field ''TSS_in_mgL'' 1 rs3) (\<lambda>v4 rs4.
     and_then (rand_field ''BOD_in_mgL'' 1 rs4) (\<lambda>v5 rs5.
     and_then (rand_field ''COD_in_mgL'' 1 rs5) (\<lambda>v6 rs6.
     and_then (rand_field ''oil_grease_in_mgL'' 1 rs6) (\<lambda>v7 rs7.
     and_then (rand_field ''turbidity_in_NTU'' 1 rs7) (\<lambda>v8 rs8.
     Inr (Influent v1 v2 v3 v4 v5 v6 v7 v8, rs8)))))))))"


section \<open>The endpoints\<close>

text \<open>\<open>root\<close> returns a dict of two strings.\<close>

definition root :: "(string \<times> string) list" where
  "root = [(''status'', ''ok''), (''message'', ''Influent Generator API is running.'')]"

definition get_single_influent :: "random_source \<Rightarrow> influent outcome" where
  "get_single_influent rs = generate_influent rs"

text \<open>The comprehension \<open>[generate_influent() for _ in range(n)]\<close>, by the number of
  iterations: \<open>range(n)\<close> has \<open>n\<close> elements, and none when \<open>n\<close> is zero or
  negative, which is \<open>nat n\<close>.\<close>

fun samples :: "nat \<Rightarrow> random_source \<Rightarrow> influent list outcome" where
  "samples 0 rs = Inr ([], rs)"
| "samples (Suc k) rs =
     and_then (generate_influent rs) (\<lambda>x rs1.
     and_then (samples k rs1) (\<lambda>xs rs2. Inr (x # xs, rs2)))"

text \<open>\<open>get_batch_influent\<close> of \<open>influent_API.py\<close>: the body clamps \<open>n\<close>.\<close>

definition get_batch_influent_clamping :: "int \<Rightarrow> random_source \<Rightarrow> influent_batch outcome" where
  "get_batch_influent_clamping n0 rs =
     (let n = max 1 (min n0 100)
      in and_then (samples (nat n) rs) (\<lambda>xs rs'.
           Inr (\<lparr>count = n, influents = xs\<rparr>, rs')))"

text \<open>\<open>get_batch_influent\<close> of \<open>influent_api.py\<close>: the body uses \<open>n\<close> as it
  comes; the bounds are declared on the parameter (\<open>Query_n\<close> below).\<close>

definition get_batch_influent_validating :: "int \<Rightarrow> random_source \<Rightarrow> influent_batch outcome" where
  "get_batch_influent_validating n rs =
     and_then (samples (nat n) rs) (\<lambda>xs rs'.
       Inr (\<lparr>count = n, influents = xs\<rparr>, rs'))"


section \<open>Requests, routes and responses\<close>

text \<open>
  The routing is FastAPI's, declared by the decorators. A request is its method, its path
  and the query parameter \<open>n\<close>, absent or an integer (a value that is no integer is turned
  down by the framework before any code of the service runs, and is not modelled). A route
  answers the method it was declared for: a known path with another method is answered
  405, an unknown path 404, an exception in a handler 500, a parameter outside its
  declared bounds 422.
\<close>

datatype http_method = GET | HEAD | POST

record request =
  http_method :: http_method
  path :: string
  query_n :: "int option"

datatype payload =
    NoContent
  | HealthPayload "(string \<times> string) list"
  | InfluentPayload influent
  | BatchPayload influent_batch
  | ErrorPayload

record response =
  status_code :: nat
  payload :: payload

text \<open>The parameter \<open>n: int = 5\<close> of \<open>influent_API.py\<close>.\<close>

definition param_n :: "int option \<Rightarrow> int" where
  "param_n q = (case q of None \<Rightarrow> 5 | Some n \<Rightarrow> n)"

text \<open>The parameter \<open>n: int = Query(default=5, ge=1, le=100)\<close> of \<open>influent_api.py\<close>:
  \<open>None\<close> is the validation failure.\<close>

definition Query_n :: "int option \<Rightarrow> int option" where
  "Query_n q =
     (case q of
        None \<Rightarrow> Some 5
      | Some n \<Rightarrow> if 1 \<le> n \<and> n \<le> 100 then Some n else None)"

text \<open>\<open>head_root\<close> of \<open>influent_api.py\<close> returns the response object it was handed,
  which has no content; its route declares \<open>status_code=200\<close>.\<close>

definition head_root :: "response \<Rightarrow> response" where
  "head_root response = response"

definition respond :: "('a \<Rightarrow> payload) \<Rightarrow> 'a outcome \<Rightarrow> response \<times> random_source" where
  "respond to_payload r =
     (case r of
        Inl (e, rs) \<Rightarrow> (\<lparr>status_code = 500, payload = ErrorPayload\<rparr>, rs)
      | Inr (x, rs) \<Rightarrow> (\<lparr>status_code = 200, payload = to_payload x\<rparr>, rs))"

definition known_path :: "string \<Rightarrow> bool" where
  "known_path p \<longleftrightarrow> p = ''/'' \<or> p = ''/influent'' \<or> p = ''/influent/batch''"

definition no_route :: "request \<Rightarrow> response" where
  "no_route req =
     \<lparr>status_code = (if known_path (path req) then 405 else 404), payload = ErrorPayload\<rparr>"

text \<open>The application of \<open>influent_API.py\<close>: three GET routes.\<close>

definition app_clamping :: "request \<Rightarrow> random_source \<Rightarrow> response \<times> random_source" where
  "app_clamping req rs =
     (if http_method req = GET \<and> path req = ''/'' then
        (\<lparr>status_code = 200, payload = HealthPayload root\<rparr>, rs)
      else if http_method req = GET \<and> path req = ''/influent'' then
        respond InfluentPayload (get_single_influent rs)
      else if http_method req = GET \<and> path req = ''/influent/batch'' then
        respond BatchPayload (get_batch_influent_clamping (param_n (query_n req)) rs)
      else (no_route req, rs))"

text \<open>The application of \<open>influent_api.py\<close>: the same three GET routes, the batch
  route with the declared bounds, and a HEAD route on the root path.\<close>

definition app_validating :: "request \<Rightarrow> random_source \<Rightarrow> response \<times> random_source" where
  "app_validating req rs =
     (if http_method req = GET \<and> path req = ''/'' then
        (\<lparr>status_code = 200, payload = HealthPayload root\<rparr>, rs)
      else if http_method req = HEAD \<and> path req = ''/'' then
        (head_root \<lparr>status_code = 200, payload = NoContent\<rparr>, rs)
      else if http_method req = GET \<and> path req = ''/influent'' then
        respond InfluentPayload (get_single_influent rs)
      else if http_method req = GET \<and> path req = ''/influent/batch'' then
        (case Query_n (query_n req) of
           None \<Rightarrow> (\<lparr>status_code = 422, payload = ErrorPayload\<rparr>, rs)
         | Some n \<Rightarrow> respond BatchPayload (get_batch_influent_validating n rs))
      else (no_route req, rs))"

section \<open>Vocabulary of the properties\<close>

text \<open>Half a unit at a number of decimals: \<open>0.5\<close> for none, \<open>0.05\<close> for one.\<close>

definition tolerance :: "nat \<Rightarrow> rat" where
  "tolerance decimals = 1 / (2 * 10 ^ decimals)"

text \<open>The \<open>decimals\<close> argument at the field's call of \<open>rand\<close> in
  \<open>generate_influent\<close>: \<open>decimals=0\<close> for the flow, the default \<open>1\<close> for the rest.\<close>

definition field_decimals :: "string \<Rightarrow> nat" where
  "field_decimals key = (if key = ''flow_m3_h'' then 0 else 1)"

text \<open>A field of a sample, by its name.\<close>

definition field_value :: "influent \<Rightarrow> string \<Rightarrow> rat option" where
  "field_value x =
     map_of
       [(''flow_m3_h'', flow_m3_h x), (''temp_C'', temp_C x), (''pH'', pH x),
        (''TSS_in_mgL'', TSS_in_mgL x), (''BOD_in_mgL'', BOD_in_mgL x),
        (''COD_in_mgL'', COD_in_mgL x), (''oil_grease_in_mgL'', oil_grease_in_mgL x),
        (''turbidity_in_NTU'', turbidity_in_NTU x)]"

text \<open>Every field of the range table lies in its interval, widened on both sides by the
  tolerance of the field's decimals.\<close>

definition within_tolerance :: "influent \<Rightarrow> bool" where
  "within_tolerance x =
     list_all
       (\<lambda>(key, low, high).
          case field_value x key of
            None \<Rightarrow> False
          | Some v \<Rightarrow> low - tolerance (field_decimals key) \<le> v
                    \<and> v \<le> high + tolerance (field_decimals key))
       INFLUENT_RANGES"

text \<open>The draws one call of \<open>generate_influent\<close> takes lie in the intervals they were
  asked for: the call for the \<open>i\<close>-th entry of the range table takes the \<open>i\<close>-th draw.\<close>

definition draws_in_range :: "random_source \<Rightarrow> bool" where
  "draws_in_range rs =
     list_all (\<lambda>(i, key, low, high). low \<le> rs i \<and> rs i \<le> high)
       (enumerate 0 INFLUENT_RANGES)"

text \<open>The same for \<open>k\<close> calls in a row, eight draws each.\<close>

definition batch_draws_in_range :: "nat \<Rightarrow> random_source \<Rightarrow> bool" where
  "batch_draws_in_range k rs = list_all (\<lambda>j. draws_in_range (drop_draws (8 * j) rs)) [0..<k]"

text \<open>The samples a response carries: one for a single sample, the list of a batch,
  none otherwise.\<close>

definition served_samples :: "response \<Rightarrow> influent list" where
  "served_samples resp =
     (case payload resp of
        InfluentPayload x \<Rightarrow> [x]
      | BatchPayload b \<Rightarrow> influents b
      | _ \<Rightarrow> [])"

text \<open>The request \<open>GET /influent/batch\<close>, with or without \<open>n\<close>.\<close>

definition batch_request :: "int option \<Rightarrow> request" where
  "batch_request q = \<lparr>http_method = GET, path = ''/influent/batch'', query_n = q\<rparr>"

text \<open>A random source for the examples: it repeats eight draws, one per field and each a
  binary fraction; three of them are ties of the rounding (\<open>250.5\<close>, \<open>7.25\<close>) or lie
  on a bound.\<close>

definition example_source :: random_source where
  "example_source i = [501 / 2, 359 / 16, 29 / 4, 80, 500, 1000, 33 / 32, 15999 / 32] ! (i mod 8)"

section \<open>Rounding\<close>

text \<open>Rounding to the nearest integer keeps integers, and never crosses one.\<close>

lemma round_half_even_of_int: "round_half_even (of_int n) = n"
  by (simp add: round_half_even_def)

lemma round_half_even_ge: "of_int n \<le> x \<Longrightarrow> n \<le> round_half_even x"
proof -
  assume "of_int n \<le> x"
  then have "n \<le> \<lfloor>x\<rfloor>" by (simp add: le_floor_iff)
  then show ?thesis by (simp add: round_half_even_def Let_def)
qed

lemma round_half_even_le: "x \<le> of_int n \<Longrightarrow> round_half_even x \<le> n"
proof -
  assume h: "x \<le> of_int n"
  show ?thesis
  proof (cases "x = of_int n")
    case True
    then show ?thesis by (simp add: round_half_even_of_int)
  next
    case False
    with h have "x < of_int n" by simp
    then have "\<lfloor>x\<rfloor> < n" by (simp add: floor_less_iff)
    then have "\<lfloor>x\<rfloor> + 1 \<le> n" by simp
    then show ?thesis by (auto simp: round_half_even_def Let_def)
  qed
qed

lemma round_half_even_near:
  "\<bar>of_int (round_half_even x) - x\<bar> \<le> 1 / 2"
proof -
  have "of_int \<lfloor>x\<rfloor> \<le> x" and "x < of_int \<lfloor>x\<rfloor> + 1" by linarith+
  then show ?thesis
    unfolding round_half_even_def Let_def by (simp add: abs_le_iff)
qed

text \<open>\<open>ilog2\<close> is a lower bound of the binary logarithm, which is all the bounds below
  need of it.\<close>

lemma ilog2_lower: assumes "0 < q" shows "2 powi ilog2 q \<le> q"
proof -
  obtain a b where ab: "quotient_of q = (a, b)" by (cases "quotient_of q")
  then have q: "q = of_int a / of_int b" by (rule quotient_of_div)
  from ab have b: "0 < b" by (rule quotient_of_denom_pos)
  with q assms have a: "0 < a" by (simp add: zero_less_divide_iff)
  let ?d = "bitlen a - bitlen b"
  show ?thesis
  proof (cases "2 powi ?d \<le> q")
    case True
    then have "ilog2 q = ?d" by (simp add: ilog2_def ab)
    with True show ?thesis by simp
  next
    case False
    then have il: "ilog2 q = ?d - 1" by (simp add: ilog2_def ab)
    have la: "(2::rat) powi (bitlen a - 1) \<le> of_int a"
    proof -
      from a have "2 ^ nat (bitlen a - 1) \<le> a" using bitlen_bounds by blast
      then have "(of_int (2 ^ nat (bitlen a - 1)) :: rat) \<le> of_int a" by (simp only: of_int_le_iff)
      moreover from a have "0 \<le> bitlen a - 1" by (simp add: bitlen_def floorlog_def)
      ultimately show ?thesis by (simp add: power_int_def)
    qed
    have ub: "of_int b \<le> (2::rat) powi bitlen b"
    proof -
      from b have "b < 2 ^ nat (bitlen b)" using bitlen_bounds by blast
      then have "(of_int b :: rat) < of_int (2 ^ nat (bitlen b))" by (simp only: of_int_less_iff)
      moreover have "0 \<le> bitlen b" by (rule bitlen_nonneg)
      ultimately show ?thesis by (simp add: power_int_def)
    qed
    have "(2::rat) powi (?d - 1) = 2 powi (bitlen a - 1) / 2 powi bitlen b"
      by (simp add: power_int_diff)
    also have "\<dots> \<le> of_int a / 2 powi bitlen b"
      using la by (simp add: divide_right_mono)
    also have "\<dots> \<le> of_int a / of_int b"
      using ub a b by (simp add: frac_le)
    also have "\<dots> = q" by (simp only: q)
    finally show ?thesis by (simp only: il)
  qed
qed

lemma ilog2_less: assumes "0 < q" and "q < 2 powi k" shows "ilog2 q < k"
proof (rule ccontr)
  assume "\<not> ilog2 q < k"
  then have "k \<le> ilog2 q" by simp
  then have "(2::rat) powi k \<le> 2 powi ilog2 q" by (simp add: power_int_increasing)
  with ilog2_lower [OF assms(1)] assms(2) show False by simp
qed

text \<open>Rounding to a grid of step 2 powi e keeps every bound that lies on the grid.\<close>

text \<open>Rounding to a grid of step \<open>2 powi e\<close> keeps every bound that lies on the grid,
  and every point of the grid.\<close>

lemma grid_ge:
  assumes "lo = of_int n * 2 powi e" and "lo \<le> q"
  shows "lo \<le> of_int (round_half_even (q / 2 powi e)) * 2 powi e"
proof -
  have p: "(0::rat) < 2 powi e" by (simp add: zero_less_power_int)
  from assms p have "of_int n \<le> q / 2 powi e" by (simp add: pos_le_divide_eq)
  then have "n \<le> round_half_even (q / 2 powi e)" by (rule round_half_even_ge)
  then have "(of_int n :: rat) \<le> of_int (round_half_even (q / 2 powi e))" by simp
  with p show ?thesis unfolding assms(1) by (simp add: mult_right_mono)
qed

lemma grid_le:
  assumes "hi = of_int n * 2 powi e" and "q \<le> hi"
  shows "of_int (round_half_even (q / 2 powi e)) * 2 powi e \<le> hi"
proof -
  have p: "(0::rat) < 2 powi e" by (simp add: zero_less_power_int)
  from assms p have "q / 2 powi e \<le> of_int n" by (simp add: pos_divide_le_eq)
  then have "round_half_even (q / 2 powi e) \<le> n" by (rule round_half_even_le)
  then have "(of_int (round_half_even (q / 2 powi e)) :: rat) \<le> of_int n" by simp
  with p show ?thesis unfolding assms(1) by (simp add: mult_right_mono)
qed

lemma on_grid:
  assumes "(x::rat) = of_int m / 2" and "e \<le> - 1"
  shows "\<exists>n. x = of_int n * 2 powi e"
proof -
  from assms(2) have nn: "0 \<le> - e - 1" by simp
  have "(2::rat) powi (- e - 1) * 2 powi e = 2 powi (- 1)"
    by (simp flip: power_int_add)
  then have h: "(2::rat) powi (- e - 1) * 2 powi e = 1 / 2"
    by simp
  have p: "(2::rat) powi (- e - 1) = of_int (2 ^ nat (- e - 1))"
    using nn by (simp add: power_int_def)
  have "of_int (m * 2 ^ nat (- e - 1)) * (2::rat) powi e
      = of_int m * (2 powi (- e - 1) * 2 powi e)"
    unfolding p by (simp add: mult.assoc)
  also have "\<dots> = x" unfolding h assms(1) by simp
  finally have "x = of_int (m * 2 ^ nat (- e - 1)) * 2 powi e" by simp
  then show ?thesis ..
qed

lemma round_grid_exact:
  assumes "e \<le> 0"
  shows "of_int (round_half_even (of_int a / 2 powi e)) * 2 powi e = (of_int a :: rat)"
proof -
  have p: "(2::rat) powi (- e) = of_int (2 ^ nat (- e))"
    using assms by (simp add: power_int_def)
  have "(of_int a :: rat) / 2 powi e = of_int a * 2 powi (- e)"
    by (simp add: power_int_minus divide_inverse)
  also have "\<dots> = of_int (a * 2 ^ nat (- e))" unfolding p by simp
  finally have "round_half_even (of_int a / 2 powi e) = a * 2 ^ nat (- e)"
    by (simp only: round_half_even_of_int)
  then have "of_int (round_half_even (of_int a / 2 powi e)) * 2 powi e
      = of_int a * ((2::rat) powi (- e) * 2 powi e)"
    unfolding p by simp
  also have "\<dots> = of_int a" by (simp flip: power_int_add)
  finally show ?thesis .
qed

text \<open>Hence the nearest float of a value between two half-integers below \<open>2 ^ 52\<close> lies
  between them, an integer below \<open>2 ^ 53\<close> is a float, and the nearest float of any
  integer is an integer.\<close>

lemma to_double_between:
  assumes "0 < lo" and "lo \<le> q" and "q \<le> hi" and "hi < 2 ^ 52"
    and "lo = of_int a / 2" and "hi = of_int b / 2"
  shows "lo \<le> to_double q \<and> to_double q \<le> hi"
proof -
  from assms have q: "0 < q" by simp
  define e where "e = max (ilog2 \<bar>q\<bar> - 52) (- 1074)"
  have "q < 2 powi 52" using assms by simp
  with q have "ilog2 q < 52" by (rule ilog2_less)
  then have e: "e \<le> - 1" using q by (simp add: e_def)
  have td: "to_double q = of_int (round_half_even (q / 2 powi e)) * 2 powi e"
    using q by (simp add: to_double_def e_def Let_def)
  from on_grid [OF assms(5) e] obtain n where "lo = of_int n * 2 powi e" ..
  then have 1: "lo \<le> to_double q" unfolding td using assms(2) by (rule grid_ge)
  from on_grid [OF assms(6) e] obtain n where "hi = of_int n * 2 powi e" ..
  then have 2: "to_double q \<le> hi" unfolding td using assms(3) by (rule grid_le)
  from 1 2 show ?thesis ..
qed

lemma to_double_of_int:
  assumes "\<bar>k\<bar> < 2 ^ 53"
  shows "to_double (of_int k) = of_int k"
proof (cases "k = 0")
  case True
  then show ?thesis by (simp add: to_double_def)
next
  case False
  define q :: rat where "q = \<bar>of_int k\<bar>"
  define e where "e = max (ilog2 q - 52) (- 1074)"
  from False have q: "0 < q" by (simp add: q_def)
  have "q = of_int \<bar>k\<bar>" by (simp add: q_def)
  also have "\<dots> < of_int (2 ^ 53)" using assms by (simp only: of_int_less_iff)
  finally have "q < 2 powi 53" by simp
  with q have "ilog2 q < 53" by (rule ilog2_less)
  then have e: "e \<le> 0" by (simp add: e_def)
  have "(2::rat) powi (- e) = of_int (2 ^ nat (- e))"
    using e by (simp add: power_int_def)
  moreover have "q / 2 powi e = q * 2 powi (- e)"
    by (simp add: power_int_minus divide_inverse)
  ultimately have "q / 2 powi e = of_int (\<bar>k\<bar> * 2 ^ nat (- e))"
    by (simp add: q_def)
  then have "round_half_even (q / 2 powi e) = \<bar>k\<bar> * 2 ^ nat (- e)"
    by (simp only: round_half_even_of_int)
  then have "of_int (round_half_even (q / 2 powi e)) * 2 powi e = q * (2 powi (- e) * 2 powi e)"
    using \<open>(2::rat) powi (- e) = of_int (2 ^ nat (- e))\<close> by (simp add: q_def)
  also have "\<dots> = q" by (simp flip: power_int_add)
  finally have "of_int (round_half_even (q / 2 powi e)) * 2 powi e = q" .
  then have "to_double (of_int k) = sgn (of_int k) * q"
    using False by (simp add: to_double_def Let_def flip: q_def e_def)
  then show ?thesis by (simp add: q_def sgn_mult_abs)
qed

lemma to_double_Ints: "to_double (of_int k) \<in> \<int>"
proof (cases "k = 0")
  case True
  then show ?thesis by (simp add: to_double_def)
next
  case False
  define e where "e = max (ilog2 \<bar>of_int k\<bar> - 52) (- 1074)"
  have td: "to_double (of_int k)
      = sgn (of_int k) * of_int (round_half_even (of_int \<bar>k\<bar> / 2 powi e)) * 2 powi e"
    using False by (simp add: to_double_def Let_def flip: e_def)
  show ?thesis
  proof (cases "e \<le> 0")
    case True
    have "to_double (of_int k) = sgn (of_int k) * (of_int \<bar>k\<bar> :: rat)"
      unfolding td using round_grid_exact [OF True, of "\<bar>k\<bar>"] by (simp add: mult.assoc)
    also have "\<dots> = of_int (sgn k * \<bar>k\<bar>)" by (simp add: sgn_if)
    finally show ?thesis by (simp only: Ints_of_int)
  next
    case False
    then have "(2::rat) powi e = of_int (2 ^ nat e)" by (simp add: power_int_def)
    then have "to_double (of_int k)
        = of_int (sgn k * round_half_even (of_int \<bar>k\<bar> / 2 powi e) * 2 ^ nat e)"
      unfolding td by (simp add: sgn_if)
    then show ?thesis by (simp only: Ints_of_int)
  qed
qed

lemma py_round_between:
  assumes "of_int a \<le> v" and "v \<le> of_int b"
  shows "a \<le> py_round v \<and> py_round v \<le> b"
  using assms by (simp add: py_round_def round_half_even_ge round_half_even_le)

lemma py_round_ndigits_between:
  assumes "0 < lo" and "lo \<le> v" and "v \<le> hi" and "hi < 2 ^ 52"
    and "lo = of_int a / 2" and "hi = of_int b / 2"
    and "lo * 10 = of_int c" and "hi * 10 = of_int d"
  shows "lo \<le> py_round_ndigits v 1 \<and> py_round_ndigits v 1 \<le> hi"
proof -
  define k where "k = round_half_even (v * 10)"
  from assms(2,7) have "of_int c \<le> v * 10" by simp
  then have "c \<le> k" unfolding k_def by (rule round_half_even_ge)
  then have "(of_int c :: rat) \<le> of_int k" by simp
  then have 1: "lo \<le> of_int k / 10" using assms(7) by simp
  from assms(3,8) have "v * 10 \<le> of_int d" by simp
  then have "k \<le> d" unfolding k_def by (rule round_half_even_le)
  then have "(of_int k :: rat) \<le> of_int d" by simp
  then have 2: "of_int k / 10 \<le> hi" using assms(8) by simp
  have "py_round_ndigits v 1 = to_double (of_int k / 10)"
    by (simp add: py_round_ndigits_def k_def)
  with to_double_between [OF assms(1) 1 2 assms(4) assms(5) assms(6)] show ?thesis by simp
qed

section \<open>The sampler\<close>

lemma drop_draws_0 [simp]: "drop_draws 0 rs = rs"
  by (simp add: drop_draws_def)

lemma drop_draws_first [simp]: "drop_draws k rs 0 = rs k"
  by (simp add: drop_draws_def)

lemma drop_draws_apply: "drop_draws k rs i = rs (k + i)"
  by (simp add: drop_draws_def)

lemma drop_draws_drop_draws [simp]: "drop_draws a (drop_draws b rs) = drop_draws (b + a) rs"
  by (simp add: drop_draws_def add.assoc)

lemma rand_field_flow: "rand_field ''flow_m3_h'' 0 rs = Inr (PyInt (py_round (rs 0)), drop_draws 1 rs)"
  by (simp add: rand_field_def range_of_def INFLUENT_RANGES_def and_then_def rand_def uniform_def)

lemma rand_field_one:
  "key \<in> set [''temp_C'', ''pH'', ''TSS_in_mgL'', ''BOD_in_mgL'', ''COD_in_mgL'',
     ''oil_grease_in_mgL'', ''turbidity_in_NTU''] \<Longrightarrow> 0 < d \<Longrightarrow>
   rand_field key d rs = Inr (PyFloat (py_round_ndigits (rs 0) d), drop_draws 1 rs)"
  by (auto simp add: rand_field_def range_of_def INFLUENT_RANGES_def and_then_def rand_def uniform_def)

text \<open>\<open>generate_influent\<close> in closed form: no lookup fails, the \<open>i\<close>-th field is
  computed from the \<open>i\<close>-th draw, and eight draws are taken.\<close>

lemma generate_influent_eq:
  "generate_influent rs =
     Inr (\<lparr>flow_m3_h = to_double (of_int (py_round (rs 0))),
           temp_C = py_round_ndigits (rs 1) 1,
           pH = py_round_ndigits (rs 2) 1,
           TSS_in_mgL = py_round_ndigits (rs 3) 1,
           BOD_in_mgL = py_round_ndigits (rs 4) 1,
           COD_in_mgL = py_round_ndigits (rs 5) 1,
           oil_grease_in_mgL = py_round_ndigits (rs 6) 1,
           turbidity_in_NTU = py_round_ndigits (rs 7) 1\<rparr>, drop_draws 8 rs)"
  by (simp add: generate_influent_def rand_field_flow rand_field_one and_then_def Influent_def
      eval_nat_numeral drop_draws_apply)

lemma draws_in_range_iff:
  "draws_in_range rs \<longleftrightarrow>
     20 \<le> rs 0 \<and> rs 0 \<le> 500 \<and> 10 \<le> rs 1 \<and> rs 1 \<le> 35 \<and>
     6 \<le> rs 2 \<and> rs 2 \<le> 17 / 2 \<and> 80 \<le> rs 3 \<and> rs 3 \<le> 800 \<and>
     100 \<le> rs 4 \<and> rs 4 \<le> 500 \<and> 200 \<le> rs 5 \<and> rs 5 \<le> 1000 \<and>
     1 \<le> rs 6 \<and> rs 6 \<le> 50 \<and> 20 \<le> rs 7 \<and> rs 7 \<le> 500"
  by (simp add: draws_in_range_def INFLUENT_RANGES_def eval_nat_numeral)

text \<open>With the draws in their intervals every field lies in its interval, exactly: both
  bounds of every interval are multiples of \<open>0.1\<close> and are floats.\<close>

lemma generate_influent_bounds:
  assumes "draws_in_range rs"
  shows "\<exists>x. generate_influent rs = Inr (x, drop_draws 8 rs) \<and>
     20 \<le> flow_m3_h x \<and> flow_m3_h x \<le> 500 \<and> 10 \<le> temp_C x \<and> temp_C x \<le> 35 \<and>
     6 \<le> pH x \<and> pH x \<le> 17 / 2 \<and> 80 \<le> TSS_in_mgL x \<and> TSS_in_mgL x \<le> 800 \<and>
     100 \<le> BOD_in_mgL x \<and> BOD_in_mgL x \<le> 500 \<and>
     200 \<le> COD_in_mgL x \<and> COD_in_mgL x \<le> 1000 \<and>
     1 \<le> oil_grease_in_mgL x \<and> oil_grease_in_mgL x \<le> 50 \<and>
     20 \<le> turbidity_in_NTU x \<and> turbidity_in_NTU x \<le> 500"
proof -
  from assms have d:
    "20 \<le> rs 0" "rs 0 \<le> 500" "10 \<le> rs 1" "rs 1 \<le> 35"
    "6 \<le> rs 2" "rs 2 \<le> 17 / 2" "80 \<le> rs 3" "rs 3 \<le> 800"
    "100 \<le> rs 4" "rs 4 \<le> 500" "200 \<le> rs 5" "rs 5 \<le> 1000"
    "1 \<le> rs 6" "rs 6 \<le> 50" "20 \<le> rs 7" "rs 7 \<le> 500"
    by (simp_all add: draws_in_range_iff)
  have "20 \<le> py_round (rs 0) \<and> py_round (rs 0) \<le> 500"
    using d(1,2) py_round_between [of 20 "rs 0" 500] by simp
  then have f0: "20 \<le> to_double (of_int (py_round (rs 0)))
      \<and> to_double (of_int (py_round (rs 0))) \<le> 500"
    by (simp add: to_double_of_int)
  have f1: "10 \<le> py_round_ndigits (rs 1) 1 \<and> py_round_ndigits (rs 1) 1 \<le> 35"
    by (rule py_round_ndigits_between [where a = 20 and b = 70 and c = 100 and d = 350])
       (use d in simp_all)
  have f2: "6 \<le> py_round_ndigits (rs 2) 1 \<and> py_round_ndigits (rs 2) 1 \<le> 17 / 2"
    by (rule py_round_ndigits_between [where a = 12 and b = 17 and c = 60 and d = 85])
       (use d in simp_all)
  have f3: "80 \<le> py_round_ndigits (rs 3) 1 \<and> py_round_ndigits (rs 3) 1 \<le> 800"
    by (rule py_round_ndigits_between [where a = 160 and b = 1600 and c = 800 and d = 8000])
       (use d in simp_all)
  have f4: "100 \<le> py_round_ndigits (rs 4) 1 \<and> py_round_ndigits (rs 4) 1 \<le> 500"
    by (rule py_round_ndigits_between [where a = 200 and b = 1000 and c = 1000 and d = 5000])
       (use d in simp_all)
  have f5: "200 \<le> py_round_ndigits (rs 5) 1 \<and> py_round_ndigits (rs 5) 1 \<le> 1000"
    by (rule py_round_ndigits_between [where a = 400 and b = 2000 and c = 2000 and d = 10000])
       (use d in simp_all)
  have f6: "1 \<le> py_round_ndigits (rs 6) 1 \<and> py_round_ndigits (rs 6) 1 \<le> 50"
    by (rule py_round_ndigits_between [where a = 2 and b = 100 and c = 10 and d = 500])
       (use d in simp_all)
  have f7: "20 \<le> py_round_ndigits (rs 7) 1 \<and> py_round_ndigits (rs 7) 1 \<le> 500"
    by (rule py_round_ndigits_between [where a = 40 and b = 1000 and c = 200 and d = 5000])
       (use d in simp_all)
  from f0 f1 f2 f3 f4 f5 f6 f7 show ?thesis
    by (simp add: generate_influent_eq)
qed

lemma bounds_within_tolerance:
  assumes "20 \<le> flow_m3_h x \<and> flow_m3_h x \<le> 500 \<and> 10 \<le> temp_C x \<and> temp_C x \<le> 35 \<and>
     6 \<le> pH x \<and> pH x \<le> 17 / 2 \<and> 80 \<le> TSS_in_mgL x \<and> TSS_in_mgL x \<le> 800 \<and>
     100 \<le> BOD_in_mgL x \<and> BOD_in_mgL x \<le> 500 \<and>
     200 \<le> COD_in_mgL x \<and> COD_in_mgL x \<le> 1000 \<and>
     1 \<le> oil_grease_in_mgL x \<and> oil_grease_in_mgL x \<le> 50 \<and>
     20 \<le> turbidity_in_NTU x \<and> turbidity_in_NTU x \<le> 500"
  shows "within_tolerance x"
  using assms
  by (simp add: within_tolerance_def INFLUENT_RANGES_def field_value_def tolerance_def
      field_decimals_def)

lemma generate_influent_tolerance:
  assumes "draws_in_range rs"
  shows "\<exists>x. generate_influent rs = Inr (x, drop_draws 8 rs) \<and> within_tolerance x"
  using generate_influent_bounds [OF assms] bounds_within_tolerance by blast

text \<open>A sample of the example source, evaluated: \<open>250.5\<close> is rounded to \<open>250\<close> and
  \<open>7.25\<close> to \<open>7.2\<close>, ties going to the even neighbour, and \<open>22.4\<close> and \<open>7.2\<close>
  come out as the floats nearest to them (shown in units of their last bits, \<open>2 ^ -48\<close>
  and \<open>2 ^ -50\<close>).\<close>

lemma example_draws_in_range: "draws_in_range example_source"
  by (simp add: draws_in_range_iff example_source_def)

lemma example_sample:
  "(case generate_influent example_source of
      Inl _ \<Rightarrow> None
    | Inr (x, _) \<Rightarrow> Some [flow_m3_h x, temp_C x * 2 ^ 48, pH x * 2 ^ 50, TSS_in_mgL x, BOD_in_mgL x,
         COD_in_mgL x, oil_grease_in_mgL x, turbidity_in_NTU x])
   = Some [250, 6305039478318694, 8106479329266893, 80, 500, 1000, 1, 500]"
  by code_simp

section \<open>Batches\<close>

text \<open>The comprehension never fails; it returns as many samples as iterations, the
  \<open>i\<close>-th being what \<open>generate_influent\<close> returns on the source as the \<open>i\<close> calls
  before it left it.\<close>

lemma samples_spec:
  "\<exists>xs. samples k rs = Inr (xs, drop_draws (8 * k) rs) \<and> length xs = k \<and>
     (\<forall>i<k. generate_influent (drop_draws (8 * i) rs)
                = Inr (xs ! i, drop_draws (8 * Suc i) rs))"
proof (induction k arbitrary: rs)
  case 0
  show ?case by simp
next
  case (Suc k)
  obtain x where x: "generate_influent rs = Inr (x, drop_draws 8 rs)"
    using generate_influent_eq by blast
  from Suc.IH [of "drop_draws 8 rs"] obtain xs where
    xs: "samples k (drop_draws 8 rs) = Inr (xs, drop_draws (8 + 8 * k) rs)"
    and len: "length xs = k"
    and each: "\<forall>i<k. generate_influent (drop_draws (8 + 8 * i) rs)
                = Inr (xs ! i, drop_draws (8 + 8 * Suc i) rs)"
    unfolding drop_draws_drop_draws by blast
  have 1: "samples (Suc k) rs = Inr (x # xs, drop_draws (8 * Suc k) rs)"
    by (simp add: x xs and_then_def)
  have 2: "length (x # xs) = Suc k" using len by simp
  have 3: "generate_influent (drop_draws (8 * i) rs)
             = Inr ((x # xs) ! i, drop_draws (8 * Suc i) rs)" if "i < Suc k" for i
  proof (cases i)
    case 0
    then show ?thesis by (simp add: x)
  next
    case (Suc j)
    with that have "j < k" by simp
    with each have "generate_influent (drop_draws (8 + 8 * j) rs)
                = Inr (xs ! j, drop_draws (8 + 8 * Suc j) rs)" by blast
    then show ?thesis by (simp add: Suc)
  qed
  from 1 2 3 show ?case by blast
qed

lemma samples_total: "\<exists>xs. samples k rs = Inr (xs, drop_draws (8 * k) rs) \<and> length xs = k"
  using samples_spec [of k rs] by blast

lemma samples_length: "samples k rs = Inr (xs, rs') \<Longrightarrow> length xs = k"
  using samples_total [of k rs] by auto

lemma samples_entries:
  assumes "samples k rs = Inr (xs, rs')" and "i < k"
  shows "generate_influent (drop_draws (8 * i) rs) = Inr (xs ! i, drop_draws (8 * Suc i) rs)"
  using samples_spec [of k rs] assms by auto

lemma samples_one:
  "generate_influent rs = Inr (x, rs') \<Longrightarrow> samples (Suc 0) rs = Inr ([x], rs')"
  by (simp add: and_then_def)

lemma batch_draws_in_range_Suc:
  "batch_draws_in_range (Suc k) rs \<longleftrightarrow>
     draws_in_range rs \<and> batch_draws_in_range k (drop_draws 8 rs)"
proof -
  have "[0..<Suc k] = 0 # map Suc [0..<k]"
    by (simp only: upt_conv_Cons [of 0 "Suc k"] map_Suc_upt zero_less_Suc)
  then show ?thesis
    unfolding batch_draws_in_range_def
    by (simp add: list.pred_map comp_def del: upt_Suc)
qed

lemma samples_tolerance:
  "batch_draws_in_range k rs \<Longrightarrow> samples k rs = Inr (xs, rs') \<Longrightarrow> list_all within_tolerance xs"
proof (induction k arbitrary: rs xs rs')
  case 0
  then show ?case by simp
next
  case (Suc k)
  from Suc.prems(1) have h: "draws_in_range rs"
    and t: "batch_draws_in_range k (drop_draws 8 rs)"
    by (simp_all add: batch_draws_in_range_Suc)
  from generate_influent_tolerance [OF h] obtain x where
    x: "generate_influent rs = Inr (x, drop_draws 8 rs)" and wx: "within_tolerance x"
    by blast
  from samples_spec [of k "drop_draws 8 rs"] obtain ys where
    ys: "samples k (drop_draws 8 rs) = Inr (ys, drop_draws (8 * k) (drop_draws 8 rs))"
    by blast
  from Suc.IH [OF t ys] have wys: "list_all within_tolerance ys" .
  from Suc.prems(2) have "xs = x # ys"
    by (simp add: x ys and_then_def)
  with wx wys show ?case by simp
qed

lemma example_batch_draws_in_range: "batch_draws_in_range 2 example_source"
  by code_simp

lemma get_batch_influent_clamping_eq:
  "\<exists>xs. get_batch_influent_clamping n rs
     = Inr (\<lparr>count = max 1 (min n 100), influents = xs\<rparr>,
            drop_draws (8 * nat (max 1 (min n 100))) rs)
     \<and> samples (nat (max 1 (min n 100))) rs
        = Inr (xs, drop_draws (8 * nat (max 1 (min n 100))) rs)
     \<and> length xs = nat (max 1 (min n 100))"
proof -
  from samples_total [of "nat (max 1 (min n 100))" rs] obtain xs where
    "samples (nat (max 1 (min n 100))) rs = Inr (xs, drop_draws (8 * nat (max 1 (min n 100))) rs)"
    and "length xs = nat (max 1 (min n 100))" by blast
  then show ?thesis
    by (simp add: get_batch_influent_clamping_def Let_def and_then_def)
qed

lemma get_batch_influent_validating_eq:
  "\<exists>xs. get_batch_influent_validating n rs
     = Inr (\<lparr>count = n, influents = xs\<rparr>, drop_draws (8 * nat n) rs)
     \<and> samples (nat n) rs = Inr (xs, drop_draws (8 * nat n) rs)
     \<and> length xs = nat n"
proof -
  from samples_total [of "nat n" rs] obtain xs where
    "samples (nat n) rs = Inr (xs, drop_draws (8 * nat n) rs)"
    and "length xs = nat n" by blast
  then show ?thesis
    by (simp add: get_batch_influent_validating_def and_then_def)
qed

section \<open>The two applications\<close>

lemma request_batch: 
  "http_method req = GET \<Longrightarrow> path req = ''/influent/batch'' \<Longrightarrow> req = batch_request (query_n req)"
  by (cases req) (simp add: batch_request_def)

lemma app_clamping_batch:
  "\<exists>xs. app_clamping (batch_request q) rs
     = (\<lparr>status_code = 200,
         payload = BatchPayload \<lparr>count = max 1 (min (param_n q) 100), influents = xs\<rparr>\<rparr>,
        drop_draws (8 * nat (max 1 (min (param_n q) 100))) rs)
     \<and> samples (nat (max 1 (min (param_n q) 100))) rs
        = Inr (xs, drop_draws (8 * nat (max 1 (min (param_n q) 100))) rs)
     \<and> length xs = nat (max 1 (min (param_n q) 100))"
proof -
  from get_batch_influent_clamping_eq [of "param_n q" rs] obtain xs where
    "get_batch_influent_clamping (param_n q) rs
     = Inr (\<lparr>count = max 1 (min (param_n q) 100), influents = xs\<rparr>,
            drop_draws (8 * nat (max 1 (min (param_n q) 100))) rs)"
    and "samples (nat (max 1 (min (param_n q) 100))) rs
        = Inr (xs, drop_draws (8 * nat (max 1 (min (param_n q) 100))) rs)"
    and "length xs = nat (max 1 (min (param_n q) 100))" by blast
  then show ?thesis
    by (simp add: app_clamping_def batch_request_def respond_def)
qed

lemma Query_n_range: "Query_n q = Some n \<Longrightarrow> 1 \<le> n \<and> n \<le> 100"
  by (auto simp: Query_n_def split: option.splits if_splits)

lemma app_validating_batch:
  assumes "Query_n q = Some n"
  shows "\<exists>xs. app_validating (batch_request q) rs
     = (\<lparr>status_code = 200, payload = BatchPayload \<lparr>count = n, influents = xs\<rparr>\<rparr>,
        drop_draws (8 * nat n) rs)
     \<and> samples (nat n) rs = Inr (xs, drop_draws (8 * nat n) rs)
     \<and> length xs = nat n"
proof -
  from get_batch_influent_validating_eq [of n rs] obtain xs where
    "get_batch_influent_validating n rs
     = Inr (\<lparr>count = n, influents = xs\<rparr>, drop_draws (8 * nat n) rs)"
    and "samples (nat n) rs = Inr (xs, drop_draws (8 * nat n) rs)"
    and "length xs = nat n" by blast
  then show ?thesis using assms
    by (simp add: app_validating_def batch_request_def respond_def)
qed

lemma app_validating_rejects:
  assumes "Query_n q = None"
  shows "app_validating (batch_request q) rs
     = (\<lparr>status_code = 422, payload = ErrorPayload\<rparr>, rs)"
  using assms by (simp add: app_validating_def batch_request_def)

text \<open>Whatever the request, the samples in the response are those of some number of
  calls of \<open>generate_influent\<close> in a row.\<close>

lemma served_clamping:
  "\<exists>k xs rs'. samples k rs = Inr (xs, rs') \<and> served_samples (fst (app_clamping req rs)) = xs"
proof -
  obtain x where x: "generate_influent rs = Inr (x, drop_draws 8 rs)"
    using generate_influent_eq by blast
  have zero: "samples 0 rs = Inr ([], rs)" by simp
  consider (health) "http_method req = GET \<and> path req = ''/''"
    | (single) "http_method req = GET \<and> path req = ''/influent''"
    | (batch) "http_method req = GET \<and> path req = ''/influent/batch''"
    | (other) "\<not> (http_method req = GET \<and> path req = ''/'')"
        "\<not> (http_method req = GET \<and> path req = ''/influent'')"
        "\<not> (http_method req = GET \<and> path req = ''/influent/batch'')"
    by blast
  then show ?thesis
  proof cases
    case health
    then have "served_samples (fst (app_clamping req rs)) = []"
      by (simp add: app_clamping_def served_samples_def)
    with zero show ?thesis by blast
  next
    case single
    then have "served_samples (fst (app_clamping req rs)) = [x]"
      by (simp add: app_clamping_def served_samples_def respond_def get_single_influent_def x)
    with samples_one [OF x] show ?thesis by blast
  next
    case batch
    then have r: "req = batch_request (query_n req)" by (simp add: request_batch)
    from app_clamping_batch [of "query_n req" rs] obtain xs k rs' where
      "app_clamping (batch_request (query_n req)) rs
         = (\<lparr>status_code = 200, payload = BatchPayload \<lparr>count = k, influents = xs\<rparr>\<rparr>, rs')"
      and "samples (nat k) rs = Inr (xs, rs')" by blast
    then have "samples (nat k) rs = Inr (xs, rs')"
      and "served_samples (fst (app_clamping req rs)) = xs"
      using r by (simp_all add: served_samples_def)
    then show ?thesis by blast
  next
    case other
    then have "served_samples (fst (app_clamping req rs)) = []"
      by (auto simp: app_clamping_def served_samples_def no_route_def)
    with zero show ?thesis by blast
  qed
qed

lemma served_validating:
  "\<exists>k xs rs'. samples k rs = Inr (xs, rs') \<and> served_samples (fst (app_validating req rs)) = xs"
proof -
  obtain x where x: "generate_influent rs = Inr (x, drop_draws 8 rs)"
    using generate_influent_eq by blast
  have zero: "samples 0 rs = Inr ([], rs)" by simp
  consider (health) "http_method req = GET \<and> path req = ''/''"
    | (head) "http_method req = HEAD \<and> path req = ''/''"
    | (single) "http_method req = GET \<and> path req = ''/influent''"
    | (batch) "http_method req = GET \<and> path req = ''/influent/batch''"
    | (other) "\<not> (http_method req = GET \<and> path req = ''/'')"
        "\<not> (http_method req = HEAD \<and> path req = ''/'')"
        "\<not> (http_method req = GET \<and> path req = ''/influent'')"
        "\<not> (http_method req = GET \<and> path req = ''/influent/batch'')"
    by blast
  then show ?thesis
  proof cases
    case health
    then have "served_samples (fst (app_validating req rs)) = []"
      by (simp add: app_validating_def served_samples_def)
    with zero show ?thesis by blast
  next
    case head
    then have "served_samples (fst (app_validating req rs)) = []"
      by (simp add: app_validating_def served_samples_def head_root_def)
    with zero show ?thesis by blast
  next
    case single
    then have "served_samples (fst (app_validating req rs)) = [x]"
      by (simp add: app_validating_def served_samples_def respond_def get_single_influent_def x)
    with samples_one [OF x] show ?thesis by blast
  next
    case batch
    then have r: "req = batch_request (query_n req)" by (simp add: request_batch)
    show ?thesis
    proof (cases "Query_n (query_n req)")
      case None
      from app_validating_rejects [OF None, of rs] r
      have "served_samples (fst (app_validating req rs)) = []"
        by (simp add: served_samples_def)
      with zero show ?thesis by blast
    next
      case (Some n)
      from app_validating_batch [OF Some, of rs] obtain xs rs' where
        "app_validating (batch_request (query_n req)) rs
           = (\<lparr>status_code = 200, payload = BatchPayload \<lparr>count = n, influents = xs\<rparr>\<rparr>, rs')"
        and "samples (nat n) rs = Inr (xs, rs')" by blast
      then have "samples (nat n) rs = Inr (xs, rs')"
        and "served_samples (fst (app_validating req rs)) = xs"
        using r by (simp_all add: served_samples_def)
      then show ?thesis by blast
    qed
  next
    case other
    then have "served_samples (fst (app_validating req rs)) = []"
      by (auto simp: app_validating_def served_samples_def no_route_def)
    with zero show ?thesis by blast
  qed
qed

lemma served_tolerance:
  assumes "\<exists>k xs rs'. samples k rs = Inr (xs, rs') \<and> served = xs"
    and "batch_draws_in_range (length served) rs"
  shows "list_all within_tolerance served"
proof -
  from assms(1) obtain k rs' where s: "samples k rs = Inr (served, rs')" by blast
  then have "length served = k" by (rule samples_length)
  with assms(2) have "batch_draws_in_range k rs" by simp
  then show ?thesis using s by (rule samples_tolerance)
qed

section \<open>The claims\<close>

text \<open>
  C1. Every sample returned by \<open>generate_influent\<close>, and hence every sample in a response
  of either application (to \<open>GET /influent\<close>, or an element of a batch), has each of its
  eight fields within the interval of the range table, to within half a unit at the
  field's decimals (none for \<open>flow_m3_h\<close>, one for the others), provided that the draws
  of \<open>random.uniform\<close> lie in the intervals they were asked for.
\<close>

theorem samples_within_tolerance:
  "(draws_in_range rs \<longrightarrow>
      (\<exists>x. generate_influent rs = Inr (x, drop_draws 8 rs) \<and> within_tolerance x)) \<and>
   (batch_draws_in_range (length (served_samples (fst (app_clamping req rs)))) rs \<longrightarrow>
      list_all within_tolerance (served_samples (fst (app_clamping req rs)))) \<and>
   (batch_draws_in_range (length (served_samples (fst (app_validating req rs)))) rs \<longrightarrow>
      list_all within_tolerance (served_samples (fst (app_validating req rs))))"
  using generate_influent_tolerance [of rs]
    served_tolerance [OF served_clamping [of rs req]]
    served_tolerance [OF served_validating [of rs req]]
  by blast

text \<open>C1 at the example source, for one call and for a batch of two.\<close>

theorem samples_within_tolerance_witness:
  "draws_in_range example_source \<and>
   (\<exists>x. generate_influent example_source = Inr (x, drop_draws 8 example_source)
      \<and> within_tolerance x) \<and>
   batch_draws_in_range 2 example_source \<and>
   length (served_samples (fst (app_clamping (batch_request (Some 2)) example_source))) = 2 \<and>
   list_all within_tolerance
     (served_samples (fst (app_clamping (batch_request (Some 2)) example_source))) \<and>
   length (served_samples (fst (app_validating (batch_request (Some 2)) example_source))) = 2 \<and>
   list_all within_tolerance
     (served_samples (fst (app_validating (batch_request (Some 2)) example_source)))"
proof -
  have l1: "length (served_samples (fst (app_clamping (batch_request (Some 2)) example_source))) = 2"
    using app_clamping_batch [of "Some 2" example_source]
    by (auto simp: served_samples_def param_n_def)
  have "Query_n (Some 2) = Some 2" by (simp add: Query_n_def)
  from app_validating_batch [OF this, of example_source]
  have l2: "length (served_samples (fst (app_validating (batch_request (Some 2)) example_source))) = 2"
    by (auto simp: served_samples_def)
  from samples_within_tolerance [of example_source "batch_request (Some 2)"]
    example_draws_in_range example_batch_draws_in_range l1 l2
  show ?thesis by simp
qed

text \<open>
  C2. Whenever a response of either application carries a batch, the batch's \<open>count\<close> is
  the length of its \<open>influents\<close>.
\<close>

theorem batch_count_is_length:
  "(payload (fst (app_clamping req rs)) = BatchPayload b \<longrightarrow>
      count b = int (length (influents b))) \<and>
   (payload (fst (app_validating req rs)) = BatchPayload b \<longrightarrow>
      count b = int (length (influents b)))"
proof (intro conjI impI)
  assume p: "payload (fst (app_clamping req rs)) = BatchPayload b"
  have g: "http_method req = GET \<and> path req = ''/influent/batch''"
  proof (rule ccontr)
    assume "\<not> ?thesis"
    with p show False
      by (auto simp: app_clamping_def no_route_def respond_def get_single_influent_def
          generate_influent_eq split: if_splits)
  qed
  then have r: "req = batch_request (query_n req)" by (simp add: request_batch)
  from app_clamping_batch [of "query_n req" rs] r p
  show "count b = int (length (influents b))" by auto
next
  assume p: "payload (fst (app_validating req rs)) = BatchPayload b"
  have g: "http_method req = GET \<and> path req = ''/influent/batch''"
  proof (rule ccontr)
    assume "\<not> ?thesis"
    with p show False
      by (auto simp: app_validating_def no_route_def respond_def get_single_influent_def
          generate_influent_eq head_root_def split: if_splits)
  qed
  then have r: "req = batch_request (query_n req)" by (simp add: request_batch)
  show "count b = int (length (influents b))"
  proof (cases "Query_n (query_n req)")
    case None
    from app_validating_rejects [OF None, of rs] r p show ?thesis by simp
  next
    case (Some n)
    from Query_n_range [OF Some] have "1 \<le> n" by simp
    with app_validating_batch [OF Some, of rs] r p show ?thesis by auto
  qed
qed

text \<open>C2 at \<open>n=1000\<close> on \<open>influent_API.py\<close> and at \<open>n=7\<close> on
  \<open>influent_api.py\<close>.\<close>

theorem batch_count_is_length_witness:
  "(\<exists>b. payload (fst (app_clamping (batch_request (Some 1000)) example_source)) = BatchPayload b
      \<and> count b = 100 \<and> count b = int (length (influents b))) \<and>
   (\<exists>b. payload (fst (app_validating (batch_request (Some 7)) example_source)) = BatchPayload b
      \<and> count b = 7 \<and> count b = int (length (influents b)))"
proof -
  from app_clamping_batch [of "Some 1000" example_source] obtain b1 where
    b1: "payload (fst (app_clamping (batch_request (Some 1000)) example_source)) = BatchPayload b1"
    and c1: "count b1 = 100"
    by (auto simp: param_n_def)
  have "Query_n (Some 7) = Some 7" by (simp add: Query_n_def)
  from app_validating_batch [OF this, of example_source] obtain b2 where
    b2: "payload (fst (app_validating (batch_request (Some 7)) example_source)) = BatchPayload b2"
    and c2: "count b2 = 7"
    by auto
  from batch_count_is_length [of "batch_request (Some 1000)" example_source b1] b1
  have "count b1 = int (length (influents b1))" by simp
  moreover
  from batch_count_is_length [of "batch_request (Some 7)" example_source b2] b2
  have "count b2 = int (length (influents b2))" by simp
  ultimately show ?thesis using b1 c1 b2 c2 by blast
qed

text \<open>
  C3. For every \<open>n\<close> from 1 to 100, \<open>GET /influent/batch?n=n\<close> is answered 200 by both
  applications with a batch of \<open>count\<close> \<open>n\<close> and \<open>n\<close> entries, the \<open>i\<close>-th entry being
  the result of a call of \<open>generate_influent\<close> of its own, on the random source as the
  calls before it left it.
\<close>

theorem batch_has_n_entries:
  assumes "1 \<le> n" and "n \<le> 100"
  shows
    "(\<exists>b. app_clamping (batch_request (Some n)) rs
         = (\<lparr>status_code = 200, payload = BatchPayload b\<rparr>, drop_draws (8 * nat n) rs)
       \<and> count b = n \<and> int (length (influents b)) = n
       \<and> (\<forall>i<nat n. generate_influent (drop_draws (8 * i) rs)
             = Inr (influents b ! i, drop_draws (8 * Suc i) rs))) \<and>
     (\<exists>b. app_validating (batch_request (Some n)) rs
         = (\<lparr>status_code = 200, payload = BatchPayload b\<rparr>, drop_draws (8 * nat n) rs)
       \<and> count b = n \<and> int (length (influents b)) = n
       \<and> (\<forall>i<nat n. generate_influent (drop_draws (8 * i) rs)
             = Inr (influents b ! i, drop_draws (8 * Suc i) rs)))"
proof
  from assms have c: "max 1 (min (param_n (Some n)) 100) = n" by (simp add: param_n_def)
  from app_clamping_batch [of "Some n" rs] obtain xs where
    a: "app_clamping (batch_request (Some n)) rs
         = (\<lparr>status_code = 200, payload = BatchPayload \<lparr>count = n, influents = xs\<rparr>\<rparr>,
            drop_draws (8 * nat n) rs)"
    and s: "samples (nat n) rs = Inr (xs, drop_draws (8 * nat n) rs)"
    and l: "length xs = nat n"
    unfolding c by blast
  from l assms have "int (length xs) = n" by simp
  with a samples_entries [OF s]
  show "\<exists>b. app_clamping (batch_request (Some n)) rs
         = (\<lparr>status_code = 200, payload = BatchPayload b\<rparr>, drop_draws (8 * nat n) rs)
       \<and> count b = n \<and> int (length (influents b)) = n
       \<and> (\<forall>i<nat n. generate_influent (drop_draws (8 * i) rs)
             = Inr (influents b ! i, drop_draws (8 * Suc i) rs))"
    by simp
next
  from assms have q: "Query_n (Some n) = Some n" by (simp add: Query_n_def)
  from app_validating_batch [OF q, of rs] obtain xs where
    a: "app_validating (batch_request (Some n)) rs
         = (\<lparr>status_code = 200, payload = BatchPayload \<lparr>count = n, influents = xs\<rparr>\<rparr>,
            drop_draws (8 * nat n) rs)"
    and s: "samples (nat n) rs = Inr (xs, drop_draws (8 * nat n) rs)"
    and l: "length xs = nat n"
    by blast
  from l assms have "int (length xs) = n" by simp
  with a samples_entries [OF s]
  show "\<exists>b. app_validating (batch_request (Some n)) rs
         = (\<lparr>status_code = 200, payload = BatchPayload b\<rparr>, drop_draws (8 * nat n) rs)
       \<and> count b = n \<and> int (length (influents b)) = n
       \<and> (\<forall>i<nat n. generate_influent (drop_draws (8 * i) rs)
             = Inr (influents b ! i, drop_draws (8 * Suc i) rs))"
    by simp
qed

text \<open>C3 at \<open>n=10\<close>: \<open>count\<close> is 10 and there are 10 entries.\<close>

theorem batch_has_n_entries_witness:
  "(1::int) \<le> 10 \<and> (10::int) \<le> 100 \<and>
   (\<exists>b. app_clamping (batch_request (Some 10)) example_source
         = (\<lparr>status_code = 200, payload = BatchPayload b\<rparr>, drop_draws 80 example_source)
       \<and> count b = 10 \<and> length (influents b) = 10) \<and>
   (\<exists>b. app_validating (batch_request (Some 10)) example_source
         = (\<lparr>status_code = 200, payload = BatchPayload b\<rparr>, drop_draws 80 example_source)
       \<and> count b = 10 \<and> length (influents b) = 10)"
  using batch_has_n_entries [of 10 example_source] by auto

text \<open>
  C4. Each application treats \<open>n=0\<close> and \<open>n=1000\<close> alike: \<open>influent_API.py\<close> answers both
  with a batch whose count is clamped (1 and 100), \<open>influent_api.py\<close> turns both down with
  the client error 422.
\<close>

theorem out_of_range_policy:
  "(\<exists>b. app_clamping (batch_request (Some 0)) rs
        = (\<lparr>status_code = 200, payload = BatchPayload b\<rparr>, drop_draws 8 rs)
      \<and> count b = 1 \<and> length (influents b) = 1) \<and>
   (\<exists>b. app_clamping (batch_request (Some 1000)) rs
        = (\<lparr>status_code = 200, payload = BatchPayload b\<rparr>, drop_draws 800 rs)
      \<and> count b = 100 \<and> length (influents b) = 100) \<and>
   app_validating (batch_request (Some 0)) rs
     = (\<lparr>status_code = 422, payload = ErrorPayload\<rparr>, rs) \<and>
   app_validating (batch_request (Some 1000)) rs
     = (\<lparr>status_code = 422, payload = ErrorPayload\<rparr>, rs)"
proof (intro conjI)
  show "\<exists>b. app_clamping (batch_request (Some 0)) rs
        = (\<lparr>status_code = 200, payload = BatchPayload b\<rparr>, drop_draws 8 rs)
      \<and> count b = 1 \<and> length (influents b) = 1"
    using app_clamping_batch [of "Some 0" rs] by (auto simp: param_n_def)
  show "\<exists>b. app_clamping (batch_request (Some 1000)) rs
        = (\<lparr>status_code = 200, payload = BatchPayload b\<rparr>, drop_draws 800 rs)
      \<and> count b = 100 \<and> length (influents b) = 100"
    using app_clamping_batch [of "Some 1000" rs] by (auto simp: param_n_def)
  show "app_validating (batch_request (Some 0)) rs
     = (\<lparr>status_code = 422, payload = ErrorPayload\<rparr>, rs)"
    by (rule app_validating_rejects) (simp add: Query_n_def)
  show "app_validating (batch_request (Some 1000)) rs
     = (\<lparr>status_code = 422, payload = ErrorPayload\<rparr>, rs)"
    by (rule app_validating_rejects) (simp add: Query_n_def)
qed

text \<open>The same holds of every \<open>n\<close> below 1 and of every \<open>n\<close> above 100.\<close>

lemma out_of_range_uniform:
  assumes "n < 1 \<or> 100 < n"
  shows "(\<exists>b. app_clamping (batch_request (Some n)) rs
        = (\<lparr>status_code = 200, payload = BatchPayload b\<rparr>,
           drop_draws (if n < 1 then 8 else 800) rs)
      \<and> count b = (if n < 1 then 1 else 100)
      \<and> int (length (influents b)) = count b) \<and>
   app_validating (batch_request (Some n)) rs
     = (\<lparr>status_code = 422, payload = ErrorPayload\<rparr>, rs)"
proof
  from assms have c: "max 1 (min (param_n (Some n)) 100) = (if n < 1 then 1 else 100)"
    by (auto simp: param_n_def)
  from app_clamping_batch [of "Some n" rs]
  show "\<exists>b. app_clamping (batch_request (Some n)) rs
        = (\<lparr>status_code = 200, payload = BatchPayload b\<rparr>,
           drop_draws (if n < 1 then 8 else 800) rs)
      \<and> count b = (if n < 1 then 1 else 100)
      \<and> int (length (influents b)) = count b"
    unfolding c by auto
  from assms have "Query_n (Some n) = None" by (auto simp: Query_n_def)
  then show "app_validating (batch_request (Some n)) rs
     = (\<lparr>status_code = 422, payload = ErrorPayload\<rparr>, rs)"
    by (rule app_validating_rejects)
qed

text \<open>
  C5. \<open>GET /influent/batch\<close> without \<open>n\<close> is answered by both applications with a batch
  of \<open>count\<close> 5 and 5 entries.
\<close>

theorem batch_default_is_five:
  "(\<exists>b. app_clamping (batch_request None) rs
        = (\<lparr>status_code = 200, payload = BatchPayload b\<rparr>, drop_draws 40 rs)
      \<and> count b = 5 \<and> length (influents b) = 5) \<and>
   (\<exists>b. app_validating (batch_request None) rs
        = (\<lparr>status_code = 200, payload = BatchPayload b\<rparr>, drop_draws 40 rs)
      \<and> count b = 5 \<and> length (influents b) = 5)"
proof
  show "\<exists>b. app_clamping (batch_request None) rs
        = (\<lparr>status_code = 200, payload = BatchPayload b\<rparr>, drop_draws 40 rs)
      \<and> count b = 5 \<and> length (influents b) = 5"
    using app_clamping_batch [of None rs] by (auto simp: param_n_def)
  have "Query_n None = Some 5" by (simp add: Query_n_def)
  from app_validating_batch [OF this, of rs]
  show "\<exists>b. app_validating (batch_request None) rs
        = (\<lparr>status_code = 200, payload = BatchPayload b\<rparr>, drop_draws 40 rs)
      \<and> count b = 5 \<and> length (influents b) = 5"
    by auto
qed

text \<open>
  C6. The \<open>flow_m3_h\<close> of every generated sample is a whole number; with the draw in
  \<open>[20, 500]\<close> it is the draw rounded to the nearest integer, at most a half away from it.
\<close>

theorem flow_is_whole_number:
  "\<exists>x. generate_influent rs = Inr (x, drop_draws 8 rs) \<and>
     frac (flow_m3_h x) = 0 \<and>
     (20 \<le> rs 0 \<and> rs 0 \<le> 500 \<longrightarrow>
        flow_m3_h x = of_int (py_round (rs 0)) \<and> \<bar>flow_m3_h x - rs 0\<bar> \<le> 1 / 2)"
proof -
  have w: "frac (to_double (of_int (py_round (rs 0)))) = 0"
    by (simp only: frac_eq_0_iff to_double_Ints)
  have e: "to_double (of_int (py_round (rs 0))) = of_int (py_round (rs 0))
      \<and> \<bar>to_double (of_int (py_round (rs 0))) - rs 0\<bar> \<le> 1 / 2"
    if "20 \<le> rs 0" and "rs 0 \<le> 500"
  proof -
    from that py_round_between [of 20 "rs 0" 500]
    have "20 \<le> py_round (rs 0) \<and> py_round (rs 0) \<le> 500" by simp
    then have "to_double (of_int (py_round (rs 0))) = of_int (py_round (rs 0))"
      by (simp add: to_double_of_int)
    then show ?thesis
      using round_half_even_near [of "rs 0"] by (simp add: py_round_def)
  qed
  from w e show ?thesis by (auto simp: generate_influent_eq)
qed

text \<open>C6 at the example source: the draw \<open>250.5\<close> gives the flow \<open>250\<close>.\<close>

theorem flow_is_whole_number_witness:
  "20 \<le> example_source 0 \<and> example_source 0 \<le> 500 \<and>
   (\<exists>x. generate_influent example_source = Inr (x, drop_draws 8 example_source) \<and>
      frac (flow_m3_h x) = 0 \<and> flow_m3_h x = 250)"
proof -
  have h: "20 \<le> example_source 0 \<and> example_source 0 \<le> 500"
    by (simp add: example_source_def)
  have "py_round (example_source 0) = 250" by code_simp
  with flow_is_whole_number [of example_source] h show ?thesis by auto
qed

text \<open>
  C7. \<open>GET /\<close> is answered 200 with the fixed payload by both applications, whatever the
  query and the state of the random source, which it leaves as it was.
\<close>

theorem root_fixed_payload:
  "app_clamping \<lparr>http_method = GET, path = ''/'', query_n = q\<rparr> rs
     = (\<lparr>status_code = 200,
         payload = HealthPayload
           [(''status'', ''ok''), (''message'', ''Influent Generator API is running.'')]\<rparr>, rs) \<and>
   app_validating \<lparr>http_method = GET, path = ''/'', query_n = q\<rparr> rs
     = (\<lparr>status_code = 200,
         payload = HealthPayload
           [(''status'', ''ok''), (''message'', ''Influent Generator API is running.'')]\<rparr>, rs)"
  by (simp add: app_clamping_def app_validating_def root_def)

text \<open>
  C8. \<open>HEAD /\<close> is to be answered 200 with an empty body. The application of
  \<open>influent_API.py\<close> declares no HEAD route and answers the request 405; the route
  \<open>head_root\<close> that \<open>influent_api.py\<close> adds answers it 200 with no content
  (\<open>head_root_validating\<close> below).
\<close>

theorem head_root_unrouted:
  "app_clamping \<lparr>http_method = HEAD, path = ''/'', query_n = q\<rparr> rs
     = (\<lparr>status_code = 405, payload = ErrorPayload\<rparr>, rs)"
  by (simp add: app_clamping_def no_route_def known_path_def)

lemma head_root_validating:
  "app_validating \<lparr>http_method = HEAD, path = ''/'', query_n = q\<rparr> rs
     = (\<lparr>status_code = 200, payload = NoContent\<rparr>, rs) \<and>
   status_code (fst (app_validating \<lparr>http_method = HEAD, path = ''/'', query_n = q\<rparr> rs))
     = status_code (fst (app_validating \<lparr>http_method = GET, path = ''/'', query_n = q\<rparr> rs))"
  by (simp add: app_validating_def head_root_def)

text \<open>
  C9. \<open>generate_influent\<close> never fails: on every random source it returns a sample, which
  is a function of the first eight draws alone, and it leaves the source advanced by
  these eight draws; the model has no other state to read or write.
\<close>

theorem generate_influent_total:
  "\<exists>f. \<forall>rs. generate_influent rs = Inr (f (map rs [0..<8]), drop_draws 8 rs)"
proof -
  define f where "f = (\<lambda>ds. \<lparr>flow_m3_h = to_double (of_int (py_round (ds ! 0))),
           temp_C = py_round_ndigits (ds ! 1) 1,
           pH = py_round_ndigits (ds ! 2) 1,
           TSS_in_mgL = py_round_ndigits (ds ! 3) 1,
           BOD_in_mgL = py_round_ndigits (ds ! 4) 1,
           COD_in_mgL = py_round_ndigits (ds ! 5) 1,
           oil_grease_in_mgL = py_round_ndigits (ds ! 6) 1,
           turbidity_in_NTU = py_round_ndigits (ds ! 7) 1\<rparr>)"
  have "\<forall>rs. generate_influent rs = Inr (f (map rs [0..<8]), drop_draws 8 rs)"
    by (simp add: f_def generate_influent_eq eval_nat_numeral)
  then show ?thesis by (rule exI [where x = f])
qed

text \<open>
  C10. For every \<open>n\<close> from 1 to 100 and the same random source, the batch endpoints of
  \<open>influent_API.py\<close> and \<open>influent_api.py\<close> return the same response, a batch of count
  \<open>n\<close> with \<open>n\<close> samples: the clamp is the identity on that range.
\<close>

theorem variants_agree_in_range:
  assumes "1 \<le> n" and "n \<le> 100"
  shows "max 1 (min n 100) = n \<and>
     get_batch_influent_clamping n rs = get_batch_influent_validating n rs \<and>
     app_clamping (batch_request (Some n)) rs = app_validating (batch_request (Some n)) rs \<and>
     (\<exists>b. app_clamping (batch_request (Some n)) rs
         = (\<lparr>status_code = 200, payload = BatchPayload b\<rparr>, drop_draws (8 * nat n) rs)
       \<and> count b = n \<and> int (length (influents b)) = n)"
proof -
  from assms have c: "max 1 (min n 100) = n" by simp
  then have h: "get_batch_influent_clamping n rs = get_batch_influent_validating n rs"
    by (simp add: get_batch_influent_clamping_def get_batch_influent_validating_def Let_def)
  from assms have q: "Query_n (Some n) = Some n" by (simp add: Query_n_def)
  have a: "app_clamping (batch_request (Some n)) rs = app_validating (batch_request (Some n)) rs"
    by (simp add: app_clamping_def app_validating_def batch_request_def q param_n_def h)
  from app_clamping_batch [of "Some n" rs] assms
  have "\<exists>b. app_clamping (batch_request (Some n)) rs
         = (\<lparr>status_code = 200, payload = BatchPayload b\<rparr>, drop_draws (8 * nat n) rs)
       \<and> count b = n \<and> int (length (influents b)) = n"
    by (auto simp: param_n_def)
  with c h a show ?thesis by blast
qed

text \<open>C10 at \<open>n=37\<close>.\<close>

theorem variants_agree_in_range_witness:
  "(1::int) \<le> 37 \<and> (37::int) \<le> 100 \<and>
   get_batch_influent_clamping 37 example_source = get_batch_influent_validating 37 example_source \<and>
   app_clamping (batch_request (Some 37)) example_source
     = app_validating (batch_request (Some 37)) example_source \<and>
   (\<exists>b. app_clamping (batch_request (Some 37)) example_source
         = (\<lparr>status_code = 200, payload = BatchPayload b\<rparr>, drop_draws 296 example_source)
       \<and> count b = 37 \<and> length (influents b) = 37)"
proof -
  have n: "(1::int) \<le> 37" "(37::int) \<le> 100" by simp_all
  from variants_agree_in_range [OF n, of example_source]
  have a: "get_batch_influent_clamping 37 example_source
      = get_batch_influent_validating 37 example_source"
    and b: "app_clamping (batch_request (Some 37)) example_source
      = app_validating (batch_request (Some 37)) example_source"
    and c: "\<exists>b. app_clamping (batch_request (Some 37)) example_source
         = (\<lparr>status_code = 200, payload = BatchPayload b\<rparr>,
            drop_draws (8 * nat 37) example_source)
       \<and> count b = 37 \<and> int (length (influents b)) = 37"
    by (rule conjunct1 [OF conjunct2], rule conjunct1 [OF conjunct2 [OF conjunct2]],
        rule conjunct2 [OF conjunct2 [OF conjunct2]])
  from c have c': "\<exists>b. app_clamping (batch_request (Some 37)) example_source
         = (\<lparr>status_code = 200, payload = BatchPayload b\<rparr>, drop_draws 296 example_source)
       \<and> count b = 37 \<and> length (influents b) = 37"
    by simp
  from n a b c' show ?thesis by (intro conjI)
qed

text \<open>Outside the range the two differ, already in the status code.\<close>

lemma variants_differ_out_of_range:
  "status_code (fst (app_clamping (batch_request (Some 0)) rs))
     \<noteq> status_code (fst (app_validating (batch_request (Some 0)) rs))"
  using app_clamping_batch [of "Some 0" rs]
  by (auto simp: app_validating_rejects Query_n_def)

end
